theory Spec2Isabelle
  imports Main "HOL-Library.Multiset"
begin

section \<open>Data model\<close>

text \<open>
  The search package of \<^verbatim>\<open>demo/searchInfo\<close>: a registry of matchers, one goroutine
  per feed running \<^verbatim>\<open>Match\<close>, a goroutine that waits for the \<^verbatim>\<open>sync.WaitGroup\<close>
  and closes the result channel, and \<^verbatim>\<open>Display\<close> draining the channel.

  \<^verbatim>\<open>Feed\<close> and \<^verbatim>\<open>Result\<close> are the structs of the source. The slices \<^verbatim>\<open>[]*Feed\<close> and
  \<^verbatim>\<open>[]*Result\<close> are lists of these records: every entry of a slice is taken to point
  to a struct. A Go \<^verbatim>\<open>error\<close> is \<open>error option\<close>, \<open>None\<close> for \<^verbatim>\<open>nil\<close>.
\<close>

record Feed =
  Name :: string
  URI :: string
  Type :: string

record Result =
  Field :: string
  Content :: string

datatype error = Error string

text \<open>
  The interface \<^verbatim>\<open>Matcher\<close> has the one method \<^verbatim>\<open>Search(feed, searchTerm)\<close>, which
  returns a slice of results and an error. A matcher is modelled by what its \<^verbatim>\<open>Search\<close>
  returns, both components together, since \<^verbatim>\<open>Match\<close> receives both. The matchers
  other than the default one are not part of the package; a \<^verbatim>\<open>Search\<close> that does not
  return, or panics, is not described here.
\<close>

type_synonym Matcher = "Feed \<Rightarrow> string \<Rightarrow> Result list \<times> error option"

type_synonym registry = "string \<rightharpoonup> Matcher"

section \<open>The default matcher (default.go)\<close>

definition defaultMatcher :: Matcher where
  "defaultMatcher feed searchTerm = ([], None)"

section \<open>The registry (search.go, Register)\<close>

text \<open>
  \<^verbatim>\<open>Register\<close> works on the package variable \<^verbatim>\<open>matchers\<close> and writes to the log; both
  are passed in and returned. \<^verbatim>\<open>log.Fatalln\<close> prints its line and exits the process:
  that outcome is \<open>Inl\<close> of the line, and nothing after it runs.
\<close>

definition Register ::
  "string \<Rightarrow> Matcher \<Rightarrow> registry \<times> string list \<Rightarrow> string + registry \<times> string list" where
  "Register feedType matcher st =
     (case st of (matchers, lg) \<Rightarrow>
        if matchers feedType \<noteq> None
        then Inl (feedType @ '' Matcher already registered'')
        else Inr (matchers(feedType \<mapsto> matcher),
                  lg @ [''Register '' @ feedType @ '' matcher'']))"

text \<open>
  Package initialisation: \<^verbatim>\<open>matchers\<close> starts as the empty map, the \<^verbatim>\<open>init\<close> of
  default.go registers the default matcher under \<^verbatim>\<open>"default"\<close>, and the packages that
  import \<^verbatim>\<open>search\<close> (main.go imports \<^verbatim>\<open>matchers\<close> for its side effects) register theirs
  afterwards, in some order \<open>plugins\<close>. The first fatal registration ends the process.
\<close>

fun registrations ::
  "(string \<times> Matcher) list \<Rightarrow> registry \<times> string list \<Rightarrow> string + registry \<times> string list" where
  "registrations [] st = Inr st"
| "registrations ((feedType, matcher) # rest) st =
     (case Register feedType matcher st of
        Inl fatal \<Rightarrow> Inl fatal
      | Inr st' \<Rightarrow> registrations rest st')"

definition package_init :: "(string \<times> Matcher) list \<Rightarrow> string + registry \<times> string list" where
  "package_init plugins =
     registrations ((''default'', defaultMatcher) # plugins) (Map.empty, [])"

section \<open>The feed source (RetrieveFeeds)\<close>

definition dataFile :: string where
  "dataFile = ''data/data.json''"

text \<open>
  \<^verbatim>\<open>os.Open\<close> and the JSON decoder belong to the Go library, so they are parameters:
  \<open>os_Open\<close> gives the file or an error, \<open>Decode\<close> gives the slice it has filled and
  its error. \<^verbatim>\<open>RetrieveFeeds\<close> returns \<^verbatim>\<open>nil\<close> with the error of \<^verbatim>\<open>os.Open\<close>, and
  otherwise whatever the decoder left in \<^verbatim>\<open>feeds\<close> together with the decoder's error.
\<close>

definition RetrieveFeeds ::
  "(string \<Rightarrow> error + 'file) \<Rightarrow> ('file \<Rightarrow> Feed list \<times> error option) \<Rightarrow> Feed list \<times> error option" where
  "RetrieveFeeds os_Open Decode =
     (case os_Open dataFile of
        Inl err \<Rightarrow> ([], Some err)
      | Inr file \<Rightarrow> Decode file)"

section \<open>The run state (search.go, Run; match.go, Match and Display)\<close>

text \<open>
  The goroutines of one run, each with its program counter.

  A worker is the goroutine of search.go:38-41. \<open>Matching\<close>: it is about to call
  \<^verbatim>\<open>match.Search\<close> (match.go:21) on the matcher that \<^verbatim>\<open>Run\<close> looked up, \<open>None\<close> when
  the lookup gave the nil interface. \<open>Forwarding rs\<close>: it is in the loop of
  match.go:26-28 and has still to send \<open>rs\<close>. \<open>Returned\<close>: \<^verbatim>\<open>Match\<close> has returned, from
  the error branch or from the end of the loop, and the deferred \<^verbatim>\<open>waitGroup.Done()\<close> is
  due. \<open>Finished\<close>: \<^verbatim>\<open>Done\<close> has run and the goroutine is gone.
\<close>

datatype worker = Matching "Matcher option" Feed | Forwarding "Result list" | Returned | Finished

text \<open>
  The goroutine of search.go:45-50: not yet started, blocked in \<^verbatim>\<open>waitGroup.Wait()\<close>,
  about to \<^verbatim>\<open>close(results)\<close>, gone.
\<close>

datatype sentinel_pc = NotStarted | Waiting | Closing | Exited

text \<open>
  The goroutine that called \<^verbatim>\<open>Run\<close>: in the loop of search.go:30-42 with the feeds it
  has still to start a worker for, in the \<^verbatim>\<open>range\<close> loop of \<^verbatim>\<open>Display\<close>, returned.
\<close>

datatype main_pc = Spawning "Feed list" | Displaying | RunReturned

text \<open>
  \<open>counter\<close> is the counter of the wait group, \<open>chan_closed\<close> tells whether \<^verbatim>\<open>results\<close>
  has been closed, \<open>panic\<close> holds the message of a Go run-time panic, which ends the
  process. \<open>logged\<close> is what workers gave to \<^verbatim>\<open>log.Println\<close> and \<open>delivered\<close> is what
  \<^verbatim>\<open>Display\<close> has received and printed, oldest first; each entry carries the index of the
  worker it came from, which the program itself does not record.
\<close>

record state =
  main :: main_pc
  workers :: "worker list"
  sentinel :: sentinel_pc
  counter :: int
  chan_closed :: bool
  panic :: "string option"
  logged :: "(nat \<times> error) list"
  delivered :: "(nat \<times> Result) list"

text \<open>search.go:32-35: the matcher of the feed's type, or the one bound to \<^verbatim>\<open>"default"\<close>.\<close>

definition resolve :: "registry \<Rightarrow> Feed \<Rightarrow> Matcher option" where
  "resolve matchers feed =
     (case matchers (Type feed) of
        Some matcher \<Rightarrow> Some matcher
      | None \<Rightarrow> matchers ''default'')"

text \<open>
  search.go:20-27: the channel is made, the wait group is set to the number of feeds,
  and no goroutine has been started.
\<close>

definition Run_init :: "Feed list \<Rightarrow> state" where
  "Run_init feeds =
     \<lparr>main = Spawning feeds, workers = [], sentinel = NotStarted,
      counter = int (length feeds), chan_closed = False, panic = None,
      logged = [], delivered = []\<rparr>"

text \<open>
  search.go:14-17: \<^verbatim>\<open>Run\<close> ends the process with \<^verbatim>\<open>log.Fatal\<close> when \<^verbatim>\<open>RetrieveFeeds\<close>
  gives an error (\<open>Inl\<close>), and otherwise goes on to the state above.
\<close>

definition Run ::
  "(string \<Rightarrow> error + 'file) \<Rightarrow> ('file \<Rightarrow> Feed list \<times> error option) \<Rightarrow> error + state" where
  "Run os_Open Decode =
     (case RetrieveFeeds os_Open Decode of
        (feeds, Some err) \<Rightarrow> Inl err
      | (feeds, None) \<Rightarrow> Inr (Run_init feeds))"

subsection \<open>Steps of the goroutines\<close>

text \<open>
  One action is one step of one goroutine; \<open>exec\<close> gives the state after it, or \<open>None\<close>
  when the goroutine is not at that point or is blocked there.
  \<^item> \<open>Spawn\<close>: one round of the loop of search.go:30-42, which looks the matcher up and
    starts the worker.
  \<^item> \<open>StartSentinel\<close>: the loop is over; search.go:45 starts the closing goroutine and
    \<^verbatim>\<open>Run\<close> enters \<^verbatim>\<open>Display\<close>.
  \<^item> \<open>Search i\<close>: worker \<open>i\<close> calls \<^verbatim>\<open>Search\<close>; with an error it logs it and \<^verbatim>\<open>Match\<close>
    returns, otherwise it enters the loop over the results. Calling \<^verbatim>\<open>Search\<close> on the
    nil interface panics.
  \<^item> \<open>Forward i\<close>: worker \<open>i\<close> sends its next result. The channel is unbuffered, so the
    send happens only together with a receive of \<^verbatim>\<open>Display\<close>, which prints the result.
    A send on a closed channel panics.
  \<^item> \<open>LoopEnd i\<close>: the loop of worker \<open>i\<close> has no result left and \<^verbatim>\<open>Match\<close> returns.
  \<^item> \<open>Done i\<close>: the deferred \<^verbatim>\<open>waitGroup.Done()\<close> of worker \<open>i\<close>. A wait group whose
    counter would go below zero panics.
  \<^item> \<open>WaitReturn\<close>: \<^verbatim>\<open>waitGroup.Wait()\<close> returns, which it does when the counter is zero.
  \<^item> \<open>Close\<close>: \<^verbatim>\<open>close(results)\<close>. Closing a closed channel panics.
  \<^item> \<open>DisplayExit\<close>: the receive of \<^verbatim>\<open>Display\<close> finds the channel closed, the \<^verbatim>\<open>range\<close>
    loop ends and \<^verbatim>\<open>Run\<close> returns.
\<close>

datatype action =
  Spawn | StartSentinel | Search nat | Forward nat | LoopEnd nat | Done nat
  | WaitReturn | Close | DisplayExit

definition panic_with :: "string \<Rightarrow> state \<Rightarrow> state" where
  "panic_with msg s = s\<lparr>panic := Some msg\<rparr>"

fun exec :: "registry \<Rightarrow> string \<Rightarrow> action \<Rightarrow> state \<Rightarrow> state option" where
  "exec matchers searchTerm Spawn s =
     (case main s of
        Spawning (feed # rest) \<Rightarrow>
          Some (s\<lparr>main := Spawning rest,
                  workers := workers s @ [Matching (resolve matchers feed) feed]\<rparr>)
      | _ \<Rightarrow> None)"
| "exec matchers searchTerm StartSentinel s =
     (case main s of
        Spawning [] \<Rightarrow> Some (s\<lparr>main := Displaying, sentinel := Waiting\<rparr>)
      | _ \<Rightarrow> None)"
| "exec matchers searchTerm (Search i) s =
     (if i < length (workers s) then
        (case workers s ! i of
           Matching None feed \<Rightarrow>
             Some (panic_with ''invalid memory address or nil pointer dereference'' s)
         | Matching (Some match) feed \<Rightarrow>
             (case match feed searchTerm of
                (searchResults, Some err) \<Rightarrow>
                  Some (s\<lparr>workers := (workers s)[i := Returned],
                          logged := logged s @ [(i, err)]\<rparr>)
              | (searchResults, None) \<Rightarrow>
                  Some (s\<lparr>workers := (workers s)[i := Forwarding searchResults]\<rparr>))
         | _ \<Rightarrow> None)
      else None)"
| "exec matchers searchTerm (Forward i) s =
     (if i < length (workers s) then
        (case workers s ! i of
           Forwarding (result # rest) \<Rightarrow>
             if chan_closed s then Some (panic_with ''send on closed channel'' s)
             else if main s = Displaying
             then Some (s\<lparr>workers := (workers s)[i := Forwarding rest],
                          delivered := delivered s @ [(i, result)]\<rparr>)
             else None
         | _ \<Rightarrow> None)
      else None)"
| "exec matchers searchTerm (LoopEnd i) s =
     (if i < length (workers s) then
        (case workers s ! i of
           Forwarding [] \<Rightarrow> Some (s\<lparr>workers := (workers s)[i := Returned]\<rparr>)
         | _ \<Rightarrow> None)
      else None)"
| "exec matchers searchTerm (Done i) s =
     (if i < length (workers s) then
        (case workers s ! i of
           Returned \<Rightarrow>
             if counter s - 1 < 0
             then Some (panic_with ''sync: negative WaitGroup counter'' s)
             else Some (s\<lparr>workers := (workers s)[i := Finished], counter := counter s - 1\<rparr>)
         | _ \<Rightarrow> None)
      else None)"
| "exec matchers searchTerm WaitReturn s =
     (if sentinel s = Waiting \<and> counter s = 0 then Some (s\<lparr>sentinel := Closing\<rparr>) else None)"
| "exec matchers searchTerm Close s =
     (if sentinel s = Closing then
        (if chan_closed s then Some (panic_with ''close of closed channel'' s)
         else Some (s\<lparr>chan_closed := True, sentinel := Exited\<rparr>))
      else None)"
| "exec matchers searchTerm DisplayExit s =
     (if main s = Displaying \<and> chan_closed s then Some (s\<lparr>main := RunReturned\<rparr>) else None)"

text \<open>
  The process is over once \<^verbatim>\<open>Run\<close> has returned (main.go returns right after it) or a
  goroutine has panicked; until then any goroutine may take its next step.
\<close>

definition finished :: "state \<Rightarrow> bool" where
  "finished s = (main s = RunReturned \<or> panic s \<noteq> None)"

definition step :: "registry \<Rightarrow> string \<Rightarrow> action \<Rightarrow> state \<Rightarrow> state option" where
  "step matchers searchTerm a s = (if finished s then None else exec matchers searchTerm a s)"

text \<open>A schedule is the list of actions taken, in order; \<open>None\<close> when one of them cannot be.\<close>

fun run :: "registry \<Rightarrow> string \<Rightarrow> action list \<Rightarrow> state \<Rightarrow> state option" where
  "run matchers searchTerm [] s = Some s"
| "run matchers searchTerm (a # as) s =
     (case step matchers searchTerm a s of
        None \<Rightarrow> None
      | Some s' \<Rightarrow> run matchers searchTerm as s')"

section \<open>Observations on a run\<close>

text \<open>
  What \<^verbatim>\<open>Display\<close> has received from worker \<open>i\<close>, in the order received, and what
  worker \<open>i\<close> has given to the log.
\<close>

definition forwarded_by :: "nat \<Rightarrow> state \<Rightarrow> Result list" where
  "forwarded_by i s = map snd (filter (\<lambda>entry. fst entry = i) (delivered s))"

definition logged_by :: "nat \<Rightarrow> state \<Rightarrow> error list" where
  "logged_by i s = map snd (filter (\<lambda>entry. fst entry = i) (logged s))"

text \<open>
  What the worker of a feed gets from \<^verbatim>\<open>Search\<close> on the matcher that \<^verbatim>\<open>Run\<close> looks up
  for the feed: the results that \<^verbatim>\<open>Match\<close> goes on to send, which are those returned
  when the error is \<^verbatim>\<open>nil\<close> and none otherwise, and the error that \<^verbatim>\<open>Match\<close> logs.
\<close>

definition expected_results :: "registry \<Rightarrow> string \<Rightarrow> Feed \<Rightarrow> Result list" where
  "expected_results matchers searchTerm feed =
     (case resolve matchers feed of
        None \<Rightarrow> []
      | Some match \<Rightarrow>
          (case match feed searchTerm of
             (searchResults, None) \<Rightarrow> searchResults
           | (searchResults, Some err) \<Rightarrow> []))"

definition expected_errors :: "registry \<Rightarrow> string \<Rightarrow> Feed \<Rightarrow> error list" where
  "expected_errors matchers searchTerm feed =
     (case resolve matchers feed of
        None \<Rightarrow> []
      | Some match \<Rightarrow>
          (case match feed searchTerm of
             (searchResults, None) \<Rightarrow> []
           | (searchResults, Some err) \<Rightarrow> [err]))"

section \<open>The invariant of a run\<close>

text \<open>
  What holds of a worker at each of its program points, given what has been received
  from it (\<open>sent\<close>) and what it has logged (\<open>errs\<close>): before \<^verbatim>\<open>Search\<close> nothing has
  happened and the matcher is the one looked up for its feed; in the loop the results
  sent and those still to send make up the results of \<^verbatim>\<open>Search\<close>; after \<^verbatim>\<open>Match\<close> all of
  them have been sent and the error, if any, has been logged.
\<close>

fun worker_ok ::
  "registry \<Rightarrow> string \<Rightarrow> Feed \<Rightarrow> worker \<Rightarrow> Result list \<Rightarrow> error list \<Rightarrow> bool" where
  "worker_ok matchers searchTerm feed (Matching mo feed') sent errs =
     (mo = resolve matchers feed \<and> mo \<noteq> None \<and> feed' = feed \<and> sent = [] \<and> errs = [])"
| "worker_ok matchers searchTerm feed (Forwarding rest) sent errs =
     (sent @ rest = expected_results matchers searchTerm feed \<and>
      expected_errors matchers searchTerm feed = [] \<and> errs = [])"
| "worker_ok matchers searchTerm feed Returned sent errs =
     (sent = expected_results matchers searchTerm feed \<and>
      errs = expected_errors matchers searchTerm feed)"
| "worker_ok matchers searchTerm feed Finished sent errs =
     (sent = expected_results matchers searchTerm feed \<and>
      errs = expected_errors matchers searchTerm feed)"

text \<open>The number of workers whose \<^verbatim>\<open>Done\<close> has run.\<close>

definition finished_count :: "worker list \<Rightarrow> nat" where
  "finished_count ws = length (filter (\<lambda>w. w = Finished) ws)"

text \<open>
  What holds of the goroutine of \<^verbatim>\<open>Run\<close>, the closing goroutine, the wait group and the
  channel: no panic has happened; workers exist for the feeds already taken, in order;
  the closing goroutine is started when the loop is over; the counter is the number of
  feeds less the number of finished workers; the closing goroutine is past
  \<^verbatim>\<open>Wait\<close> only with the counter at zero; the channel is closed exactly when that
  goroutine is gone; and \<^verbatim>\<open>Run\<close> has returned only with the channel closed.
\<close>

definition ctl_ok :: "Feed list \<Rightarrow> state \<Rightarrow> bool" where
  "ctl_ok feeds s =
     (panic s = None \<and>
      length (workers s) \<le> length feeds \<and>
      (case main s of
         Spawning rest \<Rightarrow> rest = drop (length (workers s)) feeds \<and> sentinel s = NotStarted
       | _ \<Rightarrow> length (workers s) = length feeds \<and> sentinel s \<noteq> NotStarted) \<and>
      counter s = int (length feeds) - int (finished_count (workers s)) \<and>
      (sentinel s = Closing \<longrightarrow> counter s = 0) \<and>
      (chan_closed s \<longleftrightarrow> sentinel s = Exited) \<and>
      (chan_closed s \<longrightarrow> counter s = 0) \<and>
      (main s = RunReturned \<longrightarrow> chan_closed s))"

text \<open>
  Every worker is as \<open>worker_ok\<close> says for its feed, and nothing has been received
  from or logged by a worker that does not exist yet.
\<close>

definition workers_ok :: "registry \<Rightarrow> string \<Rightarrow> Feed list \<Rightarrow> state \<Rightarrow> bool" where
  "workers_ok matchers searchTerm feeds s =
     (\<forall>i. (i < length (workers s) \<longrightarrow>
            worker_ok matchers searchTerm (feeds ! i) (workers s ! i)
              (forwarded_by i s) (logged_by i s)) \<and>
          (length (workers s) \<le> i \<longrightarrow> forwarded_by i s = [] \<and> logged_by i s = []))"

definition run_inv :: "registry \<Rightarrow> string \<Rightarrow> Feed list \<Rightarrow> state \<Rightarrow> bool" where
  "run_inv matchers searchTerm feeds s =
     (ctl_ok feeds s \<and> workers_ok matchers searchTerm feeds s)"

text \<open>Worker \<open>i\<close> exists and its \<^verbatim>\<open>Done\<close> has run.\<close>

definition is_finished :: "nat \<Rightarrow> state \<Rightarrow> bool" where
  "is_finished i s = (i < length (workers s) \<and> workers s ! i = Finished)"

section \<open>A bound on the steps of a run\<close>





section \<open>An example run\<close>

text \<open>
  Three feeds: the matcher registered for \<^verbatim>\<open>"rss"\<close> finds two results for A and fails
  for B, returning an error together with a result; no matcher is registered for the
  type of C. The schedule interleaves the workers and ends with the return of \<^verbatim>\<open>Run\<close>.
\<close>

definition example_matcher :: Matcher where
  "example_matcher feed searchTerm =
     (if Name feed = ''A''
      then ([\<lparr>Field = ''Title'', Content = searchTerm @ '' found''\<rparr>,
             \<lparr>Field = ''Description'', Content = searchTerm @ '' again''\<rparr>], None)
      else ([\<lparr>Field = ''Title'', Content = ''left over''\<rparr>], Some (Error ''HTTP 500'')))"

definition example_registry :: registry where
  "example_registry = [''default'' \<mapsto> defaultMatcher, ''rss'' \<mapsto> example_matcher]"

definition example_feeds :: "Feed list" where
  "example_feeds =
     [\<lparr>Name = ''A'', URI = ''http://a'', Type = ''rss''\<rparr>,
      \<lparr>Name = ''B'', URI = ''http://b'', Type = ''rss''\<rparr>,
      \<lparr>Name = ''C'', URI = ''http://c'', Type = ''atom''\<rparr>]"

definition example_schedule :: "action list" where
  "example_schedule =
     [Spawn, Spawn, Search 0, Spawn, StartSentinel, Search 1, Forward 0, Search 2,
      Done 1, LoopEnd 2, Forward 0, LoopEnd 0, Done 2, Done 0, WaitReturn, Close, DisplayExit]"

definition example_final :: state where
  "example_final =
     \<lparr>main = RunReturned, workers = [Finished, Finished, Finished], sentinel = Exited,
      counter = 0, chan_closed = True, panic = None,
      logged = [(1, Error ''HTTP 500'')],
      delivered = [(0, \<lparr>Field = ''Title'', Content = ''x found''\<rparr>),
                   (0, \<lparr>Field = ''Description'', Content = ''x again''\<rparr>)]\<rparr>"

section \<open>Theorems\<close>

subsection \<open>Register\<close>

lemma Register_bound:
  "matchers feedType = Some m \<Longrightarrow>
   Register feedType matcher (matchers, lg) = Inl (feedType @ '' Matcher already registered'')"
  by (simp add: Register_def)

lemma Register_Inr:
  "Register feedType matcher (matchers, lg) = Inr (matchers', lg') \<Longrightarrow>
   matchers feedType = None \<and> matchers' = matchers(feedType \<mapsto> matcher)"
  by (auto simp: Register_def split: if_splits)

text \<open>
  C2. Calling \<^verbatim>\<open>Register\<close> with a type tag that is already bound is fatal: the process
  exits with the "already registered" line, whatever matcher is offered, and so a second
  registration of a tag that was registered before is fatal too. A registration that
  does go through leaves every binding that existed as it was.
\<close>

theorem Register_duplicate_fatal:
  "(matchers feedType = Some first \<longrightarrow>
      Register feedType second (matchers, lg) =
        Inl (feedType @ '' Matcher already registered'')) \<and>
   (Register feedType first (matchers, lg) = Inr st' \<longrightarrow>
      Register feedType second st' = Inl (feedType @ '' Matcher already registered'')) \<and>
   (Register feedType second (matchers, lg) = Inr (matchers', lg') \<longrightarrow>
      (\<forall>tag m. matchers tag = Some m \<longrightarrow> matchers' tag = Some m))"
proof (intro conjI impI allI)
  assume "matchers feedType = Some first"
  then show "Register feedType second (matchers, lg) =
      Inl (feedType @ '' Matcher already registered'')"
    by (rule Register_bound)
next
  assume r: "Register feedType first (matchers, lg) = Inr st'"
  obtain matchers1 lg1 where st': "st' = (matchers1, lg1)"
    by (cases st')
  from r st' have "matchers1 feedType = Some first"
    by (auto dest: Register_Inr)
  then show "Register feedType second st' =
      Inl (feedType @ '' Matcher already registered'')"
    unfolding st' by (rule Register_bound)
next
  fix tag m
  assume r: "Register feedType second (matchers, lg) = Inr (matchers', lg')"
    and b: "matchers tag = Some m"
  from r have "matchers feedType = None" and "matchers' = matchers(feedType \<mapsto> second)"
    by (auto dest: Register_Inr)
  with b show "matchers' tag = Some m"
    by auto
qed

theorem Register_duplicate_fatal_witness:
  "Register ''rss'' defaultMatcher (Map.empty, []) =
     Inr ([''rss'' \<mapsto> defaultMatcher], [''Register rss matcher'']) \<and>
   Register ''rss'' (\<lambda>feed searchTerm. ([], Some (Error ''down'')))
     ([''rss'' \<mapsto> defaultMatcher], [''Register rss matcher'']) =
     Inl ''rss Matcher already registered''"
  using Register_duplicate_fatal [of "Map.empty" "''rss''" defaultMatcher
      "\<lambda>feed searchTerm. ([], Some (Error ''down''))" "[]"
      "([''rss'' \<mapsto> defaultMatcher], [''Register rss matcher''])"]
  by (simp add: Register_def)

subsection \<open>RetrieveFeeds and the start of Run\<close>

text \<open>
  C9. When \<^verbatim>\<open>RetrieveFeeds\<close> returns an error, because the file cannot be opened or
  because the decoder fails, \<^verbatim>\<open>Run\<close> ends the process with that error and there is no
  run state: no channel, no worker. When the file opens and the decoder succeeds,
  \<^verbatim>\<open>RetrieveFeeds\<close> returns the decoded list, all of it, and \<^verbatim>\<open>Run\<close> starts from it.
\<close>

theorem Run_fatal_on_feed_error:
  "(snd (RetrieveFeeds os_Open Decode) = Some err \<longrightarrow> Run os_Open Decode = Inl err) \<and>
   (os_Open dataFile = Inl err \<longrightarrow>
      RetrieveFeeds os_Open Decode = ([], Some err) \<and> Run os_Open Decode = Inl err) \<and>
   (os_Open dataFile = Inr file \<and> Decode file = (partial, Some err) \<longrightarrow>
      Run os_Open Decode = Inl err) \<and>
   (os_Open dataFile = Inr file \<and> Decode file = (feeds, None) \<longrightarrow>
      RetrieveFeeds os_Open Decode = (feeds, None) \<and>
      Run os_Open Decode = Inr (Run_init feeds))"
  by (auto simp: Run_def RetrieveFeeds_def split: sum.splits prod.splits option.splits)

theorem Run_fatal_on_feed_error_witness:
  "Run (\<lambda>name. if name = ''data/data.json'' then Inr ''[oops'' else Inl (Error ''no such file''))
       (\<lambda>text. ([], Some (Error ''unexpected end of JSON input''))) =
     Inl (Error ''unexpected end of JSON input'') \<and>
   Run (\<lambda>name. Inl (Error ''no such file'') :: error + string)
       (\<lambda>text. ([\<lparr>Name = ''A'', URI = ''http://a'', Type = ''rss''\<rparr>], None)) =
     Inl (Error ''no such file'') \<and>
   RetrieveFeeds (\<lambda>name. if name = ''data/data.json'' then Inr ''[...]'' else Inl (Error ''no such file''))
       (\<lambda>text. ([\<lparr>Name = ''A'', URI = ''http://a'', Type = ''rss''\<rparr>], None)) =
     ([\<lparr>Name = ''A'', URI = ''http://a'', Type = ''rss''\<rparr>], None)"
  using Run_fatal_on_feed_error
      [of "\<lambda>name. if name = ''data/data.json'' then Inr ''[oops'' else Inl (Error ''no such file'')"
          "\<lambda>text. ([], Some (Error ''unexpected end of JSON input''))"
          "Error ''unexpected end of JSON input''" "''[oops''" "[]" "[]"]
    Run_fatal_on_feed_error
      [of "\<lambda>name. Inl (Error ''no such file'') :: error + string"
          "\<lambda>text. ([\<lparr>Name = ''A'', URI = ''http://a'', Type = ''rss''\<rparr>], None)"
          "Error ''no such file''" "''x''" "[]" "[]"]
    Run_fatal_on_feed_error
      [of "\<lambda>name. if name = ''data/data.json'' then Inr ''[...]'' else Inl (Error ''no such file'')"
          "\<lambda>text. ([\<lparr>Name = ''A'', URI = ''http://a'', Type = ''rss''\<rparr>], None)"
          "Error ''x''" "''[...]''" "[]" "[\<lparr>Name = ''A'', URI = ''http://a'', Type = ''rss''\<rparr>]"]
  by (simp add: dataFile_def)

subsection \<open>Every step decreases the weight\<close>




subsection \<open>Every step keeps the invariant\<close>

lemma finished_count_snoc:
  "finished_count (ws @ [w]) = finished_count ws + (if w = Finished then 1 else 0)"
  by (simp add: finished_count_def)

lemma finished_count_update:
  "i < length ws \<Longrightarrow> ws ! i \<noteq> Finished \<Longrightarrow>
   finished_count (ws[i := w]) = finished_count ws + (if w = Finished then 1 else 0)"
  unfolding finished_count_def
  by (induction ws arbitrary: i) (auto split: nat.splits)

lemma finished_count_less:
  assumes "i < length ws" and "ws ! i \<noteq> Finished"
  shows "finished_count ws < length ws"
proof -
  from assms(1) have "ws ! i \<in> set ws"
    by simp
  with assms(2) show ?thesis
    unfolding finished_count_def
    using length_filter_less [of "ws ! i" ws "\<lambda>w. w = Finished"] by simp
qed

lemma finished_count_le: "finished_count ws \<le> length ws"
  by (simp add: finished_count_def)

lemma finished_count_all:
  assumes "length ws \<le> finished_count ws" and "i < length ws"
  shows "ws ! i = Finished"
proof (rule ccontr)
  assume "ws ! i \<noteq> Finished"
  with assms(2) have "finished_count ws < length ws"
    by (rule finished_count_less)
  with assms(1) show False
    by simp
qed

lemma drop_eq_ConsD:
  assumes "drop n xs = y # ys"
  shows "n < length xs \<and> xs ! n = y \<and> drop (Suc n) xs = ys"
proof -
  from assms have n: "n < length xs"
    by (cases "n < length xs") auto
  with assms Cons_nth_drop_Suc [OF n] show ?thesis
    by simp
qed

lemma resolve_not_None: "matchers ''default'' \<noteq> None \<Longrightarrow> resolve matchers feed \<noteq> None"
  by (auto simp: resolve_def split: option.splits)

lemma ctl_ok_busy:
  assumes c: "ctl_ok feeds s" and i: "i < length (workers s)"
    and w: "workers s ! i \<noteq> Finished"
  shows "0 < counter s" and "\<not> chan_closed s" and "sentinel s \<noteq> Closing"
    and "sentinel s \<noteq> Exited" and "main s \<noteq> RunReturned"
proof -
  from i w have "finished_count (workers s) < length (workers s)"
    by (rule finished_count_less)
  moreover from c have "length (workers s) \<le> length feeds"
    and "counter s = int (length feeds) - int (finished_count (workers s))"
    by (simp_all add: ctl_ok_def)
  ultimately show pos: "0 < counter s"
    by simp
  from c pos show "\<not> chan_closed s" and "sentinel s \<noteq> Closing"
    and "sentinel s \<noteq> Exited" and "main s \<noteq> RunReturned"
    by (auto simp: ctl_ok_def)
qed

lemma workers_ok_update:
  assumes ok: "workers_ok matchers searchTerm feeds s"
    and i: "i < length (workers s)"
    and ws: "workers s' = (workers s)[i := w]"
    and others: "\<And>j. j \<noteq> i \<Longrightarrow>
        forwarded_by j s' = forwarded_by j s \<and> logged_by j s' = logged_by j s"
    and this_one: "worker_ok matchers searchTerm (feeds ! i) w
        (forwarded_by i s') (logged_by i s')"
  shows "workers_ok matchers searchTerm feeds s'"
  unfolding workers_ok_def
proof (intro allI conjI impI)
  fix j
  assume j: "j < length (workers s')"
  show "worker_ok matchers searchTerm (feeds ! j) (workers s' ! j)
      (forwarded_by j s') (logged_by j s')"
  proof (cases "j = i")
    case True
    with i ws this_one show ?thesis
      by simp
  next
    case False
    from j ws have "j < length (workers s)"
      by simp
    with ok have "worker_ok matchers searchTerm (feeds ! j) (workers s ! j)
        (forwarded_by j s) (logged_by j s)"
      by (simp add: workers_ok_def)
    with False ws others [OF False] show ?thesis
      by simp
  qed
next
  fix j
  assume j: "length (workers s') \<le> j"
  with ws i have ne: "j \<noteq> i" and "length (workers s) \<le> j"
    by simp_all
  with ok have "forwarded_by j s = [] \<and> logged_by j s = []"
    by (simp add: workers_ok_def)
  with others [OF ne] show "forwarded_by j s' = []" and "logged_by j s' = []"
    by simp_all
qed

lemma workers_okD:
  "workers_ok matchers searchTerm feeds s \<Longrightarrow> i < length (workers s) \<Longrightarrow>
   worker_ok matchers searchTerm (feeds ! i) (workers s ! i) (forwarded_by i s) (logged_by i s)"
  by (simp add: workers_ok_def)

lemma workers_ok_outside:
  "workers_ok matchers searchTerm feeds s \<Longrightarrow> length (workers s) \<le> i \<Longrightarrow>
   forwarded_by i s = [] \<and> logged_by i s = []"
  by (simp add: workers_ok_def)

lemma forwarded_by_cong:
  "delivered s' = delivered s \<Longrightarrow> forwarded_by j s' = forwarded_by j s"
  by (simp add: forwarded_by_def)

lemma logged_by_cong:
  "logged s' = logged s \<Longrightarrow> logged_by j s' = logged_by j s"
  by (simp add: logged_by_def)

lemma workers_ok_same:
  assumes "workers_ok matchers searchTerm feeds s"
    and "workers s' = workers s" and "delivered s' = delivered s" and "logged s' = logged s"
  shows "workers_ok matchers searchTerm feeds s'"
  using assms
  by (simp add: workers_ok_def forwarded_by_cong [of s' s] logged_by_cong [of s' s])

lemma inv_Spawn:
  assumes d: "matchers ''default'' \<noteq> None"
    and i: "run_inv matchers searchTerm feeds s"
    and e: "exec matchers searchTerm Spawn s = Some s'"
  shows "run_inv matchers searchTerm feeds s'"
proof -
  from e obtain feed rest where m: "main s = Spawning (feed # rest)"
    and s': "s' = s\<lparr>main := Spawning rest,
        workers := workers s @ [Matching (resolve matchers feed) feed]\<rparr>"
    by (auto split: main_pc.splits list.splits)
  from i have c: "ctl_ok feeds s" and w: "workers_ok matchers searchTerm feeds s"
    by (simp_all add: run_inv_def)
  from c m have "drop (length (workers s)) feeds = feed # rest"
    by (simp add: ctl_ok_def)
  then have n: "length (workers s) < length feeds"
    and f: "feeds ! length (workers s) = feed"
    and r: "drop (Suc (length (workers s))) feeds = rest"
    by (auto dest: drop_eq_ConsD)
  from d have res: "resolve matchers feed \<noteq> None"
    by (rule resolve_not_None)
  from c m n r have c': "ctl_ok feeds s'"
    unfolding s' by (simp add: ctl_ok_def finished_count_snoc)
  have w': "workers_ok matchers searchTerm feeds s'"
    unfolding workers_ok_def
  proof
    fix j
    have fw: "forwarded_by j s' = forwarded_by j s" and lg: "logged_by j s' = logged_by j s"
      unfolding s' by (simp_all add: forwarded_by_def logged_by_def)
    consider "j < length (workers s)" | "j = length (workers s)" | "length (workers s) < j"
      by linarith
    then show "(j < length (workers s') \<longrightarrow>
          worker_ok matchers searchTerm (feeds ! j) (workers s' ! j)
            (forwarded_by j s') (logged_by j s')) \<and>
        (length (workers s') \<le> j \<longrightarrow> forwarded_by j s' = [] \<and> logged_by j s' = [])"
    proof cases
      case 1
      with workers_okD [OF w 1] fw lg show ?thesis
        unfolding s' by (simp add: nth_append)
    next
      case 2
      with workers_ok_outside [OF w, of j] fw lg f res show ?thesis
        unfolding s' by (simp add: nth_append)
    next
      case 3
      with workers_ok_outside [OF w, of j] fw lg show ?thesis
        unfolding s' by simp
    qed
  qed
  from c' w' show ?thesis
    by (simp add: run_inv_def)
qed

lemma inv_StartSentinel:
  assumes i: "run_inv matchers searchTerm feeds s"
    and e: "exec matchers searchTerm StartSentinel s = Some s'"
  shows "run_inv matchers searchTerm feeds s'"
proof -
  from e have m: "main s = Spawning []"
    and s': "s' = s\<lparr>main := Displaying, sentinel := Waiting\<rparr>"
    by (auto split: main_pc.splits list.splits)
  from i have c: "ctl_ok feeds s" and w: "workers_ok matchers searchTerm feeds s"
    by (simp_all add: run_inv_def)
  from c m have "ctl_ok feeds s'"
    unfolding s' by (simp add: ctl_ok_def)
  moreover from w have "workers_ok matchers searchTerm feeds s'"
    unfolding s' by (rule workers_ok_same) simp_all
  ultimately show ?thesis
    by (simp add: run_inv_def)
qed

lemma inv_WaitReturn:
  assumes i: "run_inv matchers searchTerm feeds s"
    and e: "exec matchers searchTerm WaitReturn s = Some s'"
  shows "run_inv matchers searchTerm feeds s'"
proof -
  from e have g: "sentinel s = Waiting" "counter s = 0"
    and s': "s' = s\<lparr>sentinel := Closing\<rparr>"
    by (auto split: if_splits)
  from i have c: "ctl_ok feeds s" and w: "workers_ok matchers searchTerm feeds s"
    by (simp_all add: run_inv_def)
  from c g have "ctl_ok feeds s'"
    unfolding s' by (auto simp: ctl_ok_def split: main_pc.splits)
  moreover from w have "workers_ok matchers searchTerm feeds s'"
    unfolding s' by (rule workers_ok_same) simp_all
  ultimately show ?thesis
    by (simp add: run_inv_def)
qed

lemma inv_Close:
  assumes i: "run_inv matchers searchTerm feeds s"
    and e: "exec matchers searchTerm Close s = Some s'"
  shows "run_inv matchers searchTerm feeds s'"
proof -
  from i have c: "ctl_ok feeds s" and w: "workers_ok matchers searchTerm feeds s"
    by (simp_all add: run_inv_def)
  from e have g: "sentinel s = Closing"
    by (auto split: if_splits)
  with c have nc: "\<not> chan_closed s"
    by (simp add: ctl_ok_def)
  with e g have s': "s' = s\<lparr>chan_closed := True, sentinel := Exited\<rparr>"
    by simp
  from c g have "ctl_ok feeds s'"
    unfolding s' by (simp add: ctl_ok_def split: main_pc.splits)
  moreover from w have "workers_ok matchers searchTerm feeds s'"
    unfolding s' by (rule workers_ok_same) simp_all
  ultimately show ?thesis
    by (simp add: run_inv_def)
qed

lemma inv_DisplayExit:
  assumes i: "run_inv matchers searchTerm feeds s"
    and e: "exec matchers searchTerm DisplayExit s = Some s'"
  shows "run_inv matchers searchTerm feeds s'"
proof -
  from e have g: "main s = Displaying" "chan_closed s"
    and s': "s' = s\<lparr>main := RunReturned\<rparr>"
    by (auto split: if_splits)
  from i have c: "ctl_ok feeds s" and w: "workers_ok matchers searchTerm feeds s"
    by (simp_all add: run_inv_def)
  from c g have "ctl_ok feeds s'"
    unfolding s' by (auto simp: ctl_ok_def split: main_pc.splits)
  moreover from w have "workers_ok matchers searchTerm feeds s'"
    unfolding s' by (rule workers_ok_same) simp_all
  ultimately show ?thesis
    by (simp add: run_inv_def)
qed

lemma ctl_ok_update:
  assumes "ctl_ok feeds s" and "i < length (workers s)"
    and "workers s ! i \<noteq> Finished" and "w \<noteq> Finished"
    and "workers s' = (workers s)[i := w]"
    and "main s' = main s" and "sentinel s' = sentinel s" and "counter s' = counter s"
    and "chan_closed s' = chan_closed s" and "panic s' = panic s"
  shows "ctl_ok feeds s'"
  using assms by (auto simp: ctl_ok_def finished_count_update split: main_pc.splits)

lemma inv_Search:
  assumes i: "run_inv matchers searchTerm feeds s"
    and e: "exec matchers searchTerm (Search i) s = Some s'"
  shows "run_inv matchers searchTerm feeds s'"
proof -
  from i have c: "ctl_ok feeds s" and w: "workers_ok matchers searchTerm feeds s"
    by (simp_all add: run_inv_def)
  from e have n: "i < length (workers s)"
    by (simp split: if_splits)
  from e n obtain mo feed where at: "workers s ! i = Matching mo feed"
    by (auto split: worker.splits)
  from workers_okD [OF w n] at have mo: "mo = resolve matchers (feeds ! i)"
    and some: "mo \<noteq> None" and feed: "feed = feeds ! i"
    and sent: "forwarded_by i s = []" and errs: "logged_by i s = []"
    by auto
  from some obtain match where match: "mo = Some match"
    by auto
  from at have busy: "workers s ! i \<noteq> Finished"
    by simp
  obtain searchResults err where r: "match feed searchTerm = (searchResults, err)"
    by (cases "match feed searchTerm")
  from mo match have res: "resolve matchers (feeds ! i) = Some match"
    by simp
  from r feed have r': "match (feeds ! i) searchTerm = (searchResults, err)"
    by simp
  show ?thesis
  proof (cases err)
    case None
    with e n at match r have s': "s' = s\<lparr>workers := (workers s)[i := Forwarding searchResults]\<rparr>"
      by simp
    from c n busy have "ctl_ok feeds s'"
      by (rule ctl_ok_update) (simp_all add: s')
    moreover from w n have "workers_ok matchers searchTerm feeds s'"
    proof (rule workers_ok_update)
      show "workers s' = (workers s)[i := Forwarding searchResults]"
        by (simp add: s')
      show "forwarded_by j s' = forwarded_by j s \<and> logged_by j s' = logged_by j s" for j
        by (simp add: s' forwarded_by_def logged_by_def)
      from None res r' sent errs
      show "worker_ok matchers searchTerm (feeds ! i) (Forwarding searchResults)
          (forwarded_by i s') (logged_by i s')"
        by (simp add: s' forwarded_by_def logged_by_def expected_results_def
            expected_errors_def)
    qed
    ultimately show ?thesis
      by (simp add: run_inv_def)
  next
    case (Some failure)
    with e n at match r have s': "s' = s\<lparr>workers := (workers s)[i := Returned],
        logged := logged s @ [(i, failure)]\<rparr>"
      by simp
    from c n busy have "ctl_ok feeds s'"
      by (rule ctl_ok_update) (simp_all add: s')
    moreover from w n have "workers_ok matchers searchTerm feeds s'"
    proof (rule workers_ok_update)
      show "workers s' = (workers s)[i := Returned]"
        by (simp add: s')
      show "forwarded_by j s' = forwarded_by j s \<and> logged_by j s' = logged_by j s"
        if "j \<noteq> i" for j
        using that by (simp add: s' forwarded_by_def logged_by_def)
      from Some res r' sent errs
      show "worker_ok matchers searchTerm (feeds ! i) Returned
          (forwarded_by i s') (logged_by i s')"
        by (simp add: s' forwarded_by_def logged_by_def expected_results_def
            expected_errors_def)
    qed
    ultimately show ?thesis
      by (simp add: run_inv_def)
  qed
qed

lemma inv_Forward:
  assumes i: "run_inv matchers searchTerm feeds s"
    and e: "exec matchers searchTerm (Forward i) s = Some s'"
  shows "run_inv matchers searchTerm feeds s'"
proof -
  from i have c: "ctl_ok feeds s" and w: "workers_ok matchers searchTerm feeds s"
    by (simp_all add: run_inv_def)
  from e have n: "i < length (workers s)"
    by (simp split: if_splits)
  from e n obtain result rest where at: "workers s ! i = Forwarding (result # rest)"
    by (auto split: worker.splits list.splits)
  then have busy: "workers s ! i \<noteq> Finished"
    by simp
  from ctl_ok_busy(2) [OF c n busy] have nc: "\<not> chan_closed s" .
  with e n at have s': "s' = s\<lparr>workers := (workers s)[i := Forwarding rest],
      delivered := delivered s @ [(i, result)]\<rparr>"
    by (simp split: if_splits)
  from workers_okD [OF w n] at
  have sent: "forwarded_by i s @ result # rest = expected_results matchers searchTerm (feeds ! i)"
    and noerr: "expected_errors matchers searchTerm (feeds ! i) = []"
    and errs: "logged_by i s = []"
    by simp_all
  from c n busy have "ctl_ok feeds s'"
    by (rule ctl_ok_update) (simp_all add: s')
  moreover from w n have "workers_ok matchers searchTerm feeds s'"
  proof (rule workers_ok_update)
    show "workers s' = (workers s)[i := Forwarding rest]"
      by (simp add: s')
    show "forwarded_by j s' = forwarded_by j s \<and> logged_by j s' = logged_by j s"
      if "j \<noteq> i" for j
      using that by (simp add: s' forwarded_by_def logged_by_def)
    have "forwarded_by i s' = forwarded_by i s @ [result]" and "logged_by i s' = logged_by i s"
      by (simp_all add: s' forwarded_by_def logged_by_def)
    with sent noerr errs
    show "worker_ok matchers searchTerm (feeds ! i) (Forwarding rest)
        (forwarded_by i s') (logged_by i s')"
      by simp
  qed
  ultimately show ?thesis
    by (simp add: run_inv_def)
qed

lemma inv_LoopEnd:
  assumes i: "run_inv matchers searchTerm feeds s"
    and e: "exec matchers searchTerm (LoopEnd i) s = Some s'"
  shows "run_inv matchers searchTerm feeds s'"
proof -
  from i have c: "ctl_ok feeds s" and w: "workers_ok matchers searchTerm feeds s"
    by (simp_all add: run_inv_def)
  from e have n: "i < length (workers s)"
    by (simp split: if_splits)
  from e n have at: "workers s ! i = Forwarding []"
    and s': "s' = s\<lparr>workers := (workers s)[i := Returned]\<rparr>"
    by (auto split: worker.splits list.splits)
  from at have busy: "workers s ! i \<noteq> Finished"
    by simp
  from workers_okD [OF w n] at
  have sent: "forwarded_by i s = expected_results matchers searchTerm (feeds ! i)"
    and errs: "logged_by i s = expected_errors matchers searchTerm (feeds ! i)"
    by simp_all
  from c n busy have "ctl_ok feeds s'"
    by (rule ctl_ok_update) (simp_all add: s')
  moreover from w n have "workers_ok matchers searchTerm feeds s'"
  proof (rule workers_ok_update)
    show "workers s' = (workers s)[i := Returned]"
      by (simp add: s')
    show "forwarded_by j s' = forwarded_by j s \<and> logged_by j s' = logged_by j s" for j
      by (simp add: s' forwarded_by_def logged_by_def)
    from sent errs
    show "worker_ok matchers searchTerm (feeds ! i) Returned
        (forwarded_by i s') (logged_by i s')"
      by (simp add: s' forwarded_by_def logged_by_def)
  qed
  ultimately show ?thesis
    by (simp add: run_inv_def)
qed

lemma inv_Done:
  assumes i: "run_inv matchers searchTerm feeds s"
    and e: "exec matchers searchTerm (Done i) s = Some s'"
  shows "run_inv matchers searchTerm feeds s'"
proof -
  from i have c: "ctl_ok feeds s" and w: "workers_ok matchers searchTerm feeds s"
    by (simp_all add: run_inv_def)
  from e have n: "i < length (workers s)"
    by (simp split: if_splits)
  from e n have at: "workers s ! i = Returned"
    by (auto split: worker.splits)
  then have busy: "workers s ! i \<noteq> Finished"
    by simp
  note b = ctl_ok_busy [OF c n busy]
  from e n at b(1) have s': "s' = s\<lparr>workers := (workers s)[i := Finished],
      counter := counter s - 1\<rparr>"
    by (simp split: if_splits)
  from workers_okD [OF w n] at
  have sent: "forwarded_by i s = expected_results matchers searchTerm (feeds ! i)"
    and errs: "logged_by i s = expected_errors matchers searchTerm (feeds ! i)"
    by simp_all
  from c b n busy have "ctl_ok feeds s'"
    unfolding s' by (auto simp: ctl_ok_def finished_count_update split: main_pc.splits)
  moreover from w n have "workers_ok matchers searchTerm feeds s'"
  proof (rule workers_ok_update)
    show "workers s' = (workers s)[i := Finished]"
      by (simp add: s')
    show "forwarded_by j s' = forwarded_by j s \<and> logged_by j s' = logged_by j s" for j
      by (simp add: s' forwarded_by_def logged_by_def)
    from sent errs
    show "worker_ok matchers searchTerm (feeds ! i) Finished
        (forwarded_by i s') (logged_by i s')"
      by (simp add: s' forwarded_by_def logged_by_def)
  qed
  ultimately show ?thesis
    by (simp add: run_inv_def)
qed

lemma inv_init: "run_inv matchers searchTerm feeds (Run_init feeds)"
  by (simp add: run_inv_def ctl_ok_def workers_ok_def Run_init_def finished_count_def
      forwarded_by_def logged_by_def)

lemma inv_step:
  assumes d: "matchers ''default'' \<noteq> None"
    and i: "run_inv matchers searchTerm feeds s"
    and e: "step matchers searchTerm a s = Some s'"
  shows "run_inv matchers searchTerm feeds s'"
proof -
  from e have x: "exec matchers searchTerm a s = Some s'"
    by (simp add: step_def split: if_splits)
  show ?thesis
  proof (cases a)
    case Spawn
    from d i x show ?thesis unfolding Spawn by (rule inv_Spawn)
  next
    case StartSentinel
    from i x show ?thesis unfolding StartSentinel by (rule inv_StartSentinel)
  next
    case (Search n)
    from i x show ?thesis unfolding Search by (rule inv_Search)
  next
    case (Forward n)
    from i x show ?thesis unfolding Forward by (rule inv_Forward)
  next
    case (LoopEnd n)
    from i x show ?thesis unfolding LoopEnd by (rule inv_LoopEnd)
  next
    case (Done n)
    from i x show ?thesis unfolding Done by (rule inv_Done)
  next
    case WaitReturn
    from i x show ?thesis unfolding WaitReturn by (rule inv_WaitReturn)
  next
    case Close
    from i x show ?thesis unfolding Close by (rule inv_Close)
  next
    case DisplayExit
    from i x show ?thesis unfolding DisplayExit by (rule inv_DisplayExit)
  qed
qed

lemma inv_run:
  assumes d: "matchers ''default'' \<noteq> None"
  shows "run_inv matchers searchTerm feeds s \<Longrightarrow> run matchers searchTerm as s = Some s' \<Longrightarrow>
    run_inv matchers searchTerm feeds s'"
proof (induction as arbitrary: s)
  case Nil
  then show ?case by simp
next
  case (Cons a as)
  from Cons.prems(2) obtain s1 where s1: "step matchers searchTerm a s = Some s1"
    and rest: "run matchers searchTerm as s1 = Some s'"
    by (auto split: option.splits)
  from d Cons.prems(1) s1 have "run_inv matchers searchTerm feeds s1"
    by (rule inv_step)
  then show ?case
    using rest by (rule Cons.IH)
qed

subsection \<open>A run that has not ended can take a step\<close>

lemma exists_busy:
  assumes "finished_count ws < length ws"
  shows "\<exists>i<length ws. ws ! i \<noteq> Finished"
proof (rule ccontr)
  assume "\<not> ?thesis"
  then have "\<forall>w\<in>set ws. w = Finished"
    by (auto simp: in_set_conv_nth)
  then have "filter (\<lambda>w. w = Finished) ws = ws"
    by (rule filter_True)
  with assms show False
    by (simp add: finished_count_def)
qed

lemma worker_can_step:
  assumes n: "i < length (workers s)" and busy: "workers s ! i \<noteq> Finished"
    and m: "main s = Displaying" and nc: "\<not> chan_closed s"
  shows "\<exists>a s'. exec matchers searchTerm a s = Some s'"
proof (cases "workers s ! i")
  case (Matching mo feed)
  with n have "\<exists>s'. exec matchers searchTerm (Search i) s = Some s'"
    by (cases mo; cases "the mo feed searchTerm"; cases "snd (the mo feed searchTerm)") auto
  then show ?thesis by blast
next
  case (Forwarding rest)
  show ?thesis
  proof (cases rest)
    case Nil
    with Forwarding n have "exec matchers searchTerm (LoopEnd i) s
        = Some (s\<lparr>workers := (workers s)[i := Returned]\<rparr>)"
      by simp
    then show ?thesis by blast
  next
    case (Cons result rest')
    with Forwarding n m nc have "exec matchers searchTerm (Forward i) s
        = Some (s\<lparr>workers := (workers s)[i := Forwarding rest'],
                   delivered := delivered s @ [(i, result)]\<rparr>)"
      by simp
    then show ?thesis by blast
  qed
next
  case Returned
  with n have "\<exists>s'. exec matchers searchTerm (Done i) s = Some s'"
    by simp
  then show ?thesis by blast
next
  case Finished
  with busy show ?thesis by simp
qed

lemma progress:
  assumes i: "run_inv matchers searchTerm feeds s" and nf: "\<not> finished s"
  shows "\<exists>a s'. step matchers searchTerm a s = Some s'"
proof -
  from i have c: "ctl_ok feeds s"
    by (simp add: run_inv_def)
  have "\<exists>a s'. exec matchers searchTerm a s = Some s'"
  proof (cases "main s")
    case (Spawning rest)
    show ?thesis
    proof (cases rest)
      case Nil
      with Spawning have "exec matchers searchTerm StartSentinel s
          = Some (s\<lparr>main := Displaying, sentinel := Waiting\<rparr>)"
        by simp
      then show ?thesis by blast
    next
      case (Cons feed rest')
      with Spawning have "exec matchers searchTerm Spawn s
          = Some (s\<lparr>main := Spawning rest',
                workers := workers s @ [Matching (resolve matchers feed) feed]\<rparr>)"
        by simp
      then show ?thesis by blast
    qed
  next
    case Displaying
    with c have len: "length (workers s) = length feeds" and st: "sentinel s \<noteq> NotStarted"
      and cnt: "counter s = int (length feeds) - int (finished_count (workers s))"
      and cl: "chan_closed s \<longleftrightarrow> sentinel s = Exited"
      by (simp_all add: ctl_ok_def)
    show ?thesis
    proof (cases "chan_closed s")
      case True
      with Displaying have "exec matchers searchTerm DisplayExit s
          = Some (s\<lparr>main := RunReturned\<rparr>)"
        by simp
      then show ?thesis by blast
    next
      case False
      show ?thesis
      proof (cases "sentinel s")
        case NotStarted
        with st show ?thesis by simp
      next
        case Closing
        with False have "exec matchers searchTerm Close s
            = Some (s\<lparr>chan_closed := True, sentinel := Exited\<rparr>)"
          by simp
        then show ?thesis by blast
      next
        case Exited
        with cl False show ?thesis by simp
      next
        case Waiting
        show ?thesis
        proof (cases "counter s = 0")
          case True
          with Waiting have "exec matchers searchTerm WaitReturn s
              = Some (s\<lparr>sentinel := Closing\<rparr>)"
            by simp
          then show ?thesis by blast
        next
          case nz: False
          with cnt len finished_count_le [of "workers s"]
          have "finished_count (workers s) < length (workers s)"
            by simp
          then obtain n where "n < length (workers s)" and "workers s ! n \<noteq> Finished"
            using exists_busy by blast
          then show ?thesis
            using Displaying False by (rule worker_can_step)
        qed
      qed
    qed
  next
    case RunReturned
    with nf show ?thesis
      by (simp add: finished_def)
  qed
  with nf show ?thesis
    by (simp add: step_def)
qed




subsection \<open>Package initialisation, and counting actions in a schedule\<close>

lemma registrations_keep:
  "registrations plugins st = Inr st' \<Longrightarrow> fst st tag = Some m \<Longrightarrow> fst st' tag = Some m"
proof (induction plugins st rule: registrations.induct)
  case (1 st)
  then show ?case by simp
next
  case (2 feedType matcher rest st)
  from "2.prems"(1) obtain st1 where r: "Register feedType matcher st = Inr st1"
    and rest: "registrations rest st1 = Inr st'"
    by (auto split: sum.splits)
  obtain matchers lg where st: "st = (matchers, lg)"
    by (cases st)
  obtain matchers1 lg1 where st1: "st1 = (matchers1, lg1)"
    by (cases st1)
  from r st st1 have "matchers feedType = None" and "matchers1 = matchers(feedType \<mapsto> matcher)"
    by (auto dest: Register_Inr)
  with "2.prems"(2) st st1 have "fst st1 tag = Some m"
    by auto
  with r rest show ?case
    by (rule "2.IH")
qed

lemma package_init_default:
  assumes "package_init plugins = Inr (matchers, lg)"
  shows "matchers ''default'' = Some defaultMatcher"
proof -
  from assms have "registrations plugins
      ([''default'' \<mapsto> defaultMatcher], [''Register default matcher'']) = Inr (matchers, lg)"
    by (simp add: package_init_def Register_def)
  then have "fst (matchers, lg) ''default'' = Some defaultMatcher"
    by (rule registrations_keep) simp
  then show ?thesis
    by simp
qed

lemma returned_all_finished:
  assumes c: "ctl_ok feeds s" and r: "chan_closed s"
  shows "length (workers s) = length feeds" and "\<forall>i<length feeds. workers s ! i = Finished"
proof -
  from c r have z: "int (length feeds) - int (finished_count (workers s)) = 0"
    and le: "length (workers s) \<le> length feeds"
    by (simp_all add: ctl_ok_def)
  with finished_count_le [of "workers s"] show len: "length (workers s) = length feeds"
    by simp
  from z len have "length (workers s) \<le> finished_count (workers s)"
    by simp
  then show "\<forall>i<length feeds. workers s ! i = Finished"
    using len by (auto intro: finished_count_all)
qed

lemma closes_step:
  assumes c: "ctl_ok feeds s" and e: "step matchers searchTerm a s = Some s'"
  shows "(of_bool (chan_closed s') :: nat) = of_bool (chan_closed s) + (if a = Close then 1 else 0)"
proof -
  from e have x: "exec matchers searchTerm a s = Some s'"
    by (simp add: step_def split: if_splits)
  show ?thesis
  proof (cases a)
    case Close
    from x Close have "sentinel s = Closing"
      by (simp split: if_splits)
    with c have "\<not> chan_closed s"
      by (simp add: ctl_ok_def)
    with x Close show ?thesis
      by (auto split: if_splits)
  next
    case (Forward n)
    with x have n: "n < length (workers s)" and "workers s ! n \<noteq> Finished"
      by (auto split: if_splits worker.splits list.splits)
    with c have "\<not> chan_closed s"
      by (rule ctl_ok_busy(2))
    with x Forward show ?thesis
      by (auto split: if_splits worker.splits list.splits)
  qed (use x in \<open>auto simp: panic_with_def split: if_splits worker.splits list.splits
      main_pc.splits option.splits prod.splits\<close>)
qed

lemma closes_run:
  assumes d: "matchers ''default'' \<noteq> None"
  shows "run_inv matchers searchTerm feeds s \<Longrightarrow> run matchers searchTerm as s = Some s' \<Longrightarrow>
    count_list as Close + of_bool (chan_closed s) = (of_bool (chan_closed s') :: nat)"
proof (induction as arbitrary: s)
  case Nil
  then show ?case by simp
next
  case (Cons a as)
  from Cons.prems(2) obtain s1 where s1: "step matchers searchTerm a s = Some s1"
    and rest: "run matchers searchTerm as s1 = Some s'"
    by (auto split: option.splits)
  define b0 b1 b' :: nat where "b0 = of_bool (chan_closed s)"
    and "b1 = of_bool (chan_closed s1)" and "b' = of_bool (chan_closed s')"
  from d Cons.prems(1) s1 have "run_inv matchers searchTerm feeds s1"
    by (rule inv_step)
  then have "count_list as Close + of_bool (chan_closed s1) = (of_bool (chan_closed s') :: nat)"
    using rest by (rule Cons.IH)
  then have ih: "count_list as Close + b1 = b'"
    by (simp only: b0_def b1_def b'_def)
  from Cons.prems(1) have "ctl_ok feeds s"
    by (simp add: run_inv_def)
  then have "(of_bool (chan_closed s1) :: nat)
      = of_bool (chan_closed s) + (if a = Close then 1 else 0)"
    using s1 by (rule closes_step)
  then have st: "b1 = b0 + (if a = Close then 1 else 0)"
    by (simp only: b0_def b1_def b'_def)
  from ih st have "count_list (a # as) Close + b0 = b'"
    by (cases "a = Close") simp_all
  then show ?case
    by (simp only: b0_def b1_def b'_def)
qed

lemma is_finished_update:
  "workers s' = (workers s)[n := w] \<Longrightarrow> n < length (workers s) \<Longrightarrow>
   workers s ! n \<noteq> Finished \<Longrightarrow>
   is_finished i s' = (is_finished i s \<or> (i = n \<and> w = Finished))"
  by (auto simp: is_finished_def nth_list_update)

lemma is_finished_snoc:
  "workers s' = workers s @ [w] \<Longrightarrow> w \<noteq> Finished \<Longrightarrow> is_finished i s' = is_finished i s"
  by (auto simp: is_finished_def nth_append)

lemma is_finished_same:
  "workers s' = workers s \<Longrightarrow> is_finished i s' = is_finished i s"
  by (simp add: is_finished_def)

lemma dones_step:
  assumes c: "ctl_ok feeds s" and e: "step matchers searchTerm a s = Some s'"
  shows "(of_bool (is_finished i s') :: nat)
    = of_bool (is_finished i s) + (if a = Done i then 1 else 0)"
proof -
  from e have x: "exec matchers searchTerm a s = Some s'"
    by (simp add: step_def split: if_splits)
  show ?thesis
  proof (cases a)
    case Spawn
    with x obtain w where "workers s' = workers s @ [w]" and "w \<noteq> Finished"
      by (auto split: main_pc.splits list.splits)
    then have "is_finished i s' = is_finished i s"
      by (rule is_finished_snoc)
    with Spawn show ?thesis by simp
  next
    case StartSentinel
    with x have "workers s' = workers s"
      by (auto split: main_pc.splits list.splits)
    then have "is_finished i s' = is_finished i s"
      by (rule is_finished_same)
    with StartSentinel show ?thesis by simp
  next
    case (Search n)
    with x have n: "n < length (workers s)"
      by (simp split: if_splits)
    from x Search n obtain mo feed where at: "workers s ! n = Matching mo feed"
      by (auto split: worker.splits)
    from x Search n at have "workers s' = workers s \<or>
        (\<exists>w. w \<noteq> Finished \<and> workers s' = (workers s)[n := w])"
      by (auto simp: panic_with_def split: option.splits prod.splits)
    then have "is_finished i s' = is_finished i s"
    proof
      assume "workers s' = workers s"
      then show ?thesis
        by (rule is_finished_same)
    next
      assume "\<exists>w. w \<noteq> Finished \<and> workers s' = (workers s)[n := w]"
      then obtain w where "w \<noteq> Finished" and "workers s' = (workers s)[n := w]"
        by blast
      with n at is_finished_update [of s' s n w i] show ?thesis
        by simp
    qed
    with Search show ?thesis by simp
  next
    case (Forward n)
    with x have n: "n < length (workers s)"
      by (simp split: if_splits)
    from x Forward n obtain rest where at: "workers s ! n = Forwarding rest"
      by (auto split: worker.splits)
    from x Forward n at have "workers s' = workers s \<or>
        (\<exists>w. w \<noteq> Finished \<and> workers s' = (workers s)[n := w])"
      by (auto simp: panic_with_def split: list.splits if_splits)
    then have "is_finished i s' = is_finished i s"
    proof
      assume "workers s' = workers s"
      then show ?thesis
        by (rule is_finished_same)
    next
      assume "\<exists>w. w \<noteq> Finished \<and> workers s' = (workers s)[n := w]"
      then obtain w where "w \<noteq> Finished" and "workers s' = (workers s)[n := w]"
        by blast
      with n at is_finished_update [of s' s n w i] show ?thesis
        by simp
    qed
    with Forward show ?thesis by simp
  next
    case (LoopEnd n)
    with x have n: "n < length (workers s)"
      by (simp split: if_splits)
    from x LoopEnd n obtain rest where at: "workers s ! n = Forwarding rest"
      by (auto split: worker.splits)
    from x LoopEnd n at have "workers s' = (workers s)[n := Returned]"
      by (auto split: list.splits)
    with n at is_finished_update [of s' s n Returned i]
    have "is_finished i s' = is_finished i s"
      by simp
    with LoopEnd show ?thesis by simp
  next
    case (Done n)
    with x have n: "n < length (workers s)"
      by (simp split: if_splits)
    from x Done n have at: "workers s ! n = Returned"
      by (auto split: worker.splits)
    then have busy: "workers s ! n \<noteq> Finished"
      by simp
    from c n busy have "0 < counter s"
      by (rule ctl_ok_busy(1))
    with x Done n at have "workers s' = (workers s)[n := Finished]"
      by auto
    with n busy is_finished_update [of s' s n Finished i]
    have "is_finished i s' = (is_finished i s \<or> i = n)"
      by simp
    moreover from n at have "\<not> is_finished n s"
      by (simp add: is_finished_def)
    ultimately show ?thesis
      using Done by auto
  next
    case WaitReturn
    with x have "workers s' = workers s"
      by (auto split: if_splits)
    then have "is_finished i s' = is_finished i s"
      by (rule is_finished_same)
    with WaitReturn show ?thesis by simp
  next
    case Close
    with x have "workers s' = workers s"
      by (auto simp: panic_with_def split: if_splits)
    then have "is_finished i s' = is_finished i s"
      by (rule is_finished_same)
    with Close show ?thesis by simp
  next
    case DisplayExit
    with x have "workers s' = workers s"
      by (auto split: if_splits)
    then have "is_finished i s' = is_finished i s"
      by (rule is_finished_same)
    with DisplayExit show ?thesis by simp
  qed
qed

lemma dones_run:
  assumes d: "matchers ''default'' \<noteq> None"
  shows "run_inv matchers searchTerm feeds s \<Longrightarrow> run matchers searchTerm as s = Some s' \<Longrightarrow>
    count_list as (Done i) + of_bool (is_finished i s) = (of_bool (is_finished i s') :: nat)"
proof (induction as arbitrary: s)
  case Nil
  then show ?case by simp
next
  case (Cons a as)
  from Cons.prems(2) obtain s1 where s1: "step matchers searchTerm a s = Some s1"
    and rest: "run matchers searchTerm as s1 = Some s'"
    by (auto split: option.splits)
  define b0 b1 b' :: nat where "b0 = of_bool (is_finished i s)"
    and "b1 = of_bool (is_finished i s1)" and "b' = of_bool (is_finished i s')"
  from d Cons.prems(1) s1 have "run_inv matchers searchTerm feeds s1"
    by (rule inv_step)
  then have "count_list as (Done i) + of_bool (is_finished i s1)
      = (of_bool (is_finished i s') :: nat)"
    using rest by (rule Cons.IH)
  then have ih: "count_list as (Done i) + b1 = b'"
    by (simp only: b0_def b1_def b'_def)
  from Cons.prems(1) have "ctl_ok feeds s"
    by (simp add: run_inv_def)
  then have "(of_bool (is_finished i s1) :: nat)
      = of_bool (is_finished i s) + (if a = Done i then 1 else 0)"
    using s1 by (rule dones_step)
  then have st: "b1 = b0 + (if a = Done i then 1 else 0)"
    by (simp only: b0_def b1_def b'_def)
  from ih st have "count_list (a # as) (Done i) + b0 = b'"
    by (cases "a = Done i") simp_all
  then show ?case
    by (simp only: b0_def b1_def b'_def)
qed

subsection \<open>The delivered results, worker by worker\<close>





subsection \<open>The example run\<close>

lemma example_init:
  "package_init [(''rss'', example_matcher)] =
     Inr (example_registry, [''Register default matcher'', ''Register rss matcher''])"
  by (simp add: package_init_def Register_def example_registry_def)

lemma example_run:
  "run example_registry ''x'' example_schedule (Run_init example_feeds) = Some example_final"
  by (simp add: example_schedule_def example_feeds_def example_final_def example_registry_def
      example_matcher_def defaultMatcher_def Run_init_def step_def finished_def resolve_def)

lemma reach_inv:
  assumes "package_init plugins = Inr (matchers, lg)"
    and "run matchers searchTerm as (Run_init feeds) = Some s"
  shows "run_inv matchers searchTerm feeds s"
proof -
  from assms(1) have "matchers ''default'' \<noteq> None"
    by (simp add: package_init_default)
  then show ?thesis
    using inv_init assms(2) by (rule inv_run)
qed

lemma worker_view:
  assumes w: "workers_ok matchers searchTerm feeds s"
  shows "\<exists>rest. forwarded_by i s @ rest = expected_results matchers searchTerm (feeds ! i)"
    and "logged_by i s = [] \<or> logged_by i s = expected_errors matchers searchTerm (feeds ! i)"
    and "i < length (workers s) \<Longrightarrow> workers s ! i = Forwarding rest \<Longrightarrow>
      forwarded_by i s @ rest = expected_results matchers searchTerm (feeds ! i) \<and>
      expected_errors matchers searchTerm (feeds ! i) = []"
    and "i < length (workers s) \<Longrightarrow> workers s ! i = Finished \<Longrightarrow>
      forwarded_by i s = expected_results matchers searchTerm (feeds ! i) \<and>
      logged_by i s = expected_errors matchers searchTerm (feeds ! i)"
proof -
  show "\<exists>rest. forwarded_by i s @ rest = expected_results matchers searchTerm (feeds ! i)"
  proof (cases "i < length (workers s)")
    case True
    from workers_okD [OF w True] show ?thesis
      by (cases "workers s ! i") auto
  next
    case False
    with w have "forwarded_by i s = []"
      by (simp add: workers_ok_outside)
    then show ?thesis by simp
  qed
  show "logged_by i s = [] \<or> logged_by i s = expected_errors matchers searchTerm (feeds ! i)"
  proof (cases "i < length (workers s)")
    case True
    from workers_okD [OF w True] show ?thesis
      by (cases "workers s ! i") auto
  next
    case False
    with w show ?thesis
      by (simp add: workers_ok_outside)
  qed
  show "forwarded_by i s @ rest = expected_results matchers searchTerm (feeds ! i) \<and>
      expected_errors matchers searchTerm (feeds ! i) = []"
    if "i < length (workers s)" and "workers s ! i = Forwarding rest"
    using workers_okD [OF w that(1)] that(2) by simp
  show "forwarded_by i s = expected_results matchers searchTerm (feeds ! i) \<and>
      logged_by i s = expected_errors matchers searchTerm (feeds ! i)"
    if "i < length (workers s)" and "workers s ! i = Finished"
    using workers_okD [OF w that(1)] that(2) by simp
qed

lemma returned_view:
  assumes i: "run_inv matchers searchTerm feeds s" and r: "main s = RunReturned"
    and n: "i < length feeds"
  shows "forwarded_by i s = expected_results matchers searchTerm (feeds ! i)"
    and "logged_by i s = expected_errors matchers searchTerm (feeds ! i)"
    and "is_finished i s"
proof -
  from i have c: "ctl_ok feeds s" and w: "workers_ok matchers searchTerm feeds s"
    by (simp_all add: run_inv_def)
  from c r have cl: "chan_closed s"
    by (auto simp: ctl_ok_def)
  from c cl have "length (workers s) = length feeds"
    by (rule returned_all_finished(1))
  moreover from c cl have "\<forall>i<length feeds. workers s ! i = Finished"
    by (rule returned_all_finished(2))
  ultimately have a: "i < length (workers s)" and b: "workers s ! i = Finished"
    using n by simp_all
  from worker_view(4) [OF w a b]
  show "forwarded_by i s = expected_results matchers searchTerm (feeds ! i)"
    and "logged_by i s = expected_errors matchers searchTerm (feeds ! i)"
    by simp_all
  from a b show "is_finished i s"
    by (simp add: is_finished_def)
qed

lemma no_tag_no_entry:
  "forwarded_by i s = [] \<Longrightarrow> (i, r) \<notin> set (delivered s)"
  by (auto simp: forwarded_by_def filter_empty_conv)

lemma all_finished_count:
  assumes "\<forall>i<length ws. ws ! i = Finished"
  shows "finished_count ws = length ws"
proof -
  from assms have "\<forall>w\<in>set ws. w = Finished"
    by (auto simp: in_set_conv_nth)
  then have "filter (\<lambda>w. w = Finished) ws = ws"
    by (rule filter_True)
  then show ?thesis
    by (simp add: finished_count_def)
qed



subsection \<open>Termination of Run\<close>



subsection \<open>What one worker does\<close>

lemma expected_of_failure:
  assumes "resolve matchers feed = Some match"
    and "match feed searchTerm = (searchResults, Some err)"
  shows "expected_results matchers searchTerm feed = []"
    and "expected_errors matchers searchTerm feed = [err]"
  using assms by (simp_all add: expected_results_def expected_errors_def)


lemma busy_not_finished:
  assumes i: "run_inv matchers searchTerm feeds s"
    and n: "i < length (workers s)" and busy: "workers s ! i \<noteq> Finished"
  shows "\<not> finished s" and "\<not> chan_closed s" and "0 < counter s"
proof -
  from i have c: "ctl_ok feeds s"
    by (simp add: run_inv_def)
  from c have "panic s = None"
    by (simp add: ctl_ok_def)
  moreover from c n busy have "main s \<noteq> RunReturned"
    by (rule ctl_ok_busy(5))
  ultimately show "\<not> finished s"
    by (simp add: finished_def)
  from c n busy show "\<not> chan_closed s"
    by (rule ctl_ok_busy(2))
  from c n busy show "0 < counter s"
    by (rule ctl_ok_busy(1))
qed

lemma example_B_resolve: "resolve example_registry (example_feeds ! 1) = Some example_matcher"
  by (simp add: resolve_def example_registry_def example_feeds_def)

lemma example_B_search:
  "example_matcher (example_feeds ! 1) ''x'' =
     ([\<lparr>Field = ''Title'', Content = ''left over''\<rparr>], Some (Error ''HTTP 500''))"
  by (simp add: example_matcher_def example_feeds_def)



text \<open>
  C3. When the \<^verbatim>\<open>Search\<close> of a worker's matcher fails, the step of the worker that
  calls it appends the error to the log and takes the worker straight to the end of
  \<^verbatim>\<open>Match\<close>. In every state of every schedule nothing that this worker sent has been
  delivered, the log holds nothing of this worker or exactly that error, and exactly
  that error once \<^verbatim>\<open>Run\<close> has returned. The failure does not abort the run: no state is
  a panic, and before \<^verbatim>\<open>Run\<close> has returned some goroutine can always go on.
\<close>

theorem failed_search_logged_not_forwarded:
  assumes "package_init plugins = Inr (matchers, lg)"
    and "run matchers searchTerm as (Run_init feeds) = Some s"
    and "i < length feeds"
    and "resolve matchers (feeds ! i) = Some match"
    and "match (feeds ! i) searchTerm = (searchResults, Some err)"
  shows "forwarded_by i s = [] \<and>
         panic s = None \<and>
         (logged_by i s = [] \<or> logged_by i s = [err]) \<and>
         (main s = RunReturned \<longrightarrow> logged_by i s = [err]) \<and>
         (i < length (workers s) \<and> workers s ! i = Matching (Some match) (feeds ! i) \<longrightarrow>
            step matchers searchTerm (Search i) s =
              Some (s\<lparr>workers := (workers s)[i := Returned],
                      logged := logged s @ [(i, err)]\<rparr>)) \<and>
         (main s \<noteq> RunReturned \<longrightarrow> (\<exists>a s'. step matchers searchTerm a s = Some s'))"
proof (intro conjI impI)
  from assms(1,2) have inv: "run_inv matchers searchTerm feeds s"
    by (rule reach_inv)
  then have c: "ctl_ok feeds s" and w: "workers_ok matchers searchTerm feeds s"
    by (simp_all add: run_inv_def)
  note x = expected_of_failure [OF assms(4,5)]
  from worker_view(1) [OF w, of i] x(1) show "forwarded_by i s = []"
    by simp
  from c show p: "panic s = None"
    by (simp add: ctl_ok_def)
  from worker_view(2) [OF w, of i] x(2) show "logged_by i s = [] \<or> logged_by i s = [err]"
    by simp
  show "logged_by i s = [err]" if "main s = RunReturned"
    using returned_view(2) [OF inv that assms(3)] x(2) by simp
  show "step matchers searchTerm (Search i) s =
      Some (s\<lparr>workers := (workers s)[i := Returned], logged := logged s @ [(i, err)]\<rparr>)"
    if "i < length (workers s) \<and> workers s ! i = Matching (Some match) (feeds ! i)"
  proof -
    from that have n: "i < length (workers s)"
      and at: "workers s ! i = Matching (Some match) (feeds ! i)"
      by simp_all
    from at have "workers s ! i \<noteq> Finished"
      by simp
    with inv n have "\<not> finished s"
      by (rule busy_not_finished(1))
    with n at assms(5) show ?thesis
      by (simp add: step_def)
  qed
  show "\<exists>a s'. step matchers searchTerm a s = Some s'" if "main s \<noteq> RunReturned"
  proof -
    from that p have "\<not> finished s"
      by (simp add: finished_def)
    with inv show ?thesis
      by (rule progress)
  qed
qed

theorem failed_search_logged_not_forwarded_witness:
  "forwarded_by 1 example_final = [] \<and> panic example_final = None \<and>
   logged_by 1 example_final = [Error ''HTTP 500''] \<and>
   map snd (delivered example_final) =
     [\<lparr>Field = ''Title'', Content = ''x found''\<rparr>,
      \<lparr>Field = ''Description'', Content = ''x again''\<rparr>]"
proof -
  have n: "1 < length example_feeds"
    by (simp add: example_feeds_def)
  note t = failed_search_logged_not_forwarded
      [OF example_init example_run n example_B_resolve example_B_search]
  have "main example_final = RunReturned"
    by (simp add: example_final_def)
  with t have "forwarded_by 1 example_final = [] \<and> panic example_final = None \<and>
      logged_by 1 example_final = [Error ''HTTP 500'']"
    by blast
  then show ?thesis
    by (simp add: example_final_def)
qed

text \<open>
  C10. When \<^verbatim>\<open>Search\<close> returns an error together with results, the worker forwards
  none of them: the step that calls \<^verbatim>\<open>Search\<close> takes the worker to the end of \<^verbatim>\<open>Match\<close>
  and delivers nothing, the worker is never in the forwarding loop, and in no state of
  any schedule has one of those results been delivered from this worker.
\<close>

theorem error_discards_results:
  assumes "package_init plugins = Inr (matchers, lg)"
    and "run matchers searchTerm as (Run_init feeds) = Some s"
    and "i < length feeds"
    and "resolve matchers (feeds ! i) = Some match"
    and "match (feeds ! i) searchTerm = (searchResults, Some err)"
    and "searchResults \<noteq> []"
  shows "forwarded_by i s \<noteq> searchResults \<and>
         (\<forall>result\<in>set searchResults. (i, result) \<notin> set (delivered s)) \<and>
         (\<forall>rest. i < length (workers s) \<longrightarrow> workers s ! i \<noteq> Forwarding rest) \<and>
         (i < length (workers s) \<and> workers s ! i = Matching (Some match) (feeds ! i) \<longrightarrow>
            (\<exists>s'. step matchers searchTerm (Search i) s = Some s' \<and>
                  workers s' ! i = Returned \<and> delivered s' = delivered s))"
proof (intro conjI impI allI ballI)
  from assms(1,2) have inv: "run_inv matchers searchTerm feeds s"
    by (rule reach_inv)
  then have w: "workers_ok matchers searchTerm feeds s"
    by (simp add: run_inv_def)
  note x = expected_of_failure [OF assms(4,5)]
  from worker_view(1) [OF w, of i] x(1) have none: "forwarded_by i s = []"
    by simp
  with assms(6) show "forwarded_by i s \<noteq> searchResults"
    by simp
  from none show "(i, result) \<notin> set (delivered s)" for result
    by (rule no_tag_no_entry)
  show "workers s ! i \<noteq> Forwarding rest" if "i < length (workers s)" for rest
  proof
    assume "workers s ! i = Forwarding rest"
    with worker_view(3) [OF w that] x(2) show False
      by simp
  qed
  show "\<exists>s'. step matchers searchTerm (Search i) s = Some s' \<and>
      workers s' ! i = Returned \<and> delivered s' = delivered s"
    if "i < length (workers s) \<and> workers s ! i = Matching (Some match) (feeds ! i)"
  proof -
    from that have n: "i < length (workers s)"
      and at: "workers s ! i = Matching (Some match) (feeds ! i)"
      by simp_all
    from at have "workers s ! i \<noteq> Finished"
      by simp
    with inv n have "\<not> finished s"
      by (rule busy_not_finished(1))
    with n at assms(5) show ?thesis
      by (simp add: step_def)
  qed
qed

theorem error_discards_results_witness:
  "forwarded_by 1 example_final \<noteq> [\<lparr>Field = ''Title'', Content = ''left over''\<rparr>] \<and>
   (1, \<lparr>Field = ''Title'', Content = ''left over''\<rparr>) \<notin> set (delivered example_final)"
proof -
  have n: "1 < length example_feeds"
    by (simp add: example_feeds_def)
  have ne: "[\<lparr>Field = ''Title'', Content = ''left over''\<rparr>] \<noteq> []"
    by simp
  note t = error_discards_results
      [OF example_init example_run n example_B_resolve example_B_search ne]
  from t show ?thesis
    by simp
qed



subsection \<open>Closing the channel and counting the workers\<close>

lemma closed_no_forward:
  assumes c: "ctl_ok feeds s" and cl: "chan_closed s"
  shows "step matchers searchTerm (Forward i) s = None"
proof (cases "i < length (workers s)")
  case True
  from c cl have "length (workers s) = length feeds"
    by (rule returned_all_finished(1))
  moreover from c cl have "\<forall>i<length feeds. workers s ! i = Finished"
    by (rule returned_all_finished(2))
  ultimately have "workers s ! i = Finished"
    using True by simp
  with True show ?thesis
    by (simp add: step_def)
next
  case False
  then show ?thesis
    by (simp add: step_def)
qed

text \<open>
  C5. The closing goroutine is the only one that closes the channel, it closes it exactly
  once, and only when the counter of the wait group is zero. In every schedule the number
  of \<open>Close\<close> actions taken is one if the channel is closed and zero otherwise, so there
  is never a second close (and no panic). A step that changes whether the channel is
  closed is the \<open>Close\<close> of that goroutine, taken with the counter at zero. While the
  channel is closed the counter is zero, every worker has finished, and no worker can
  send; when \<^verbatim>\<open>Run\<close> has returned the channel is closed.
\<close>

theorem sentinel_closes_once:
  assumes "package_init plugins = Inr (matchers, lg)"
    and "run matchers searchTerm as (Run_init feeds) = Some s"
  shows "count_list as Close = (if chan_closed s then 1 else 0) \<and>
         panic s = None \<and>
         (chan_closed s \<longrightarrow>
            counter s = 0 \<and> sentinel s = Exited \<and> length (workers s) = length feeds \<and>
            (\<forall>i<length feeds. workers s ! i = Finished) \<and>
            (\<forall>i. step matchers searchTerm (Forward i) s = None)) \<and>
         (main s = RunReturned \<longrightarrow> chan_closed s) \<and>
         (\<forall>a s'. step matchers searchTerm a s = Some s' \<and> chan_closed s' \<noteq> chan_closed s \<longrightarrow>
            a = Close \<and> sentinel s = Closing \<and> counter s = 0 \<and> chan_closed s')"
proof -
  from assms(1) have d: "matchers ''default'' \<noteq> None"
    by (simp add: package_init_default)
  from assms have inv: "run_inv matchers searchTerm feeds s"
    by (rule reach_inv)
  then have c: "ctl_ok feeds s"
    by (simp add: run_inv_def)
  from closes_run [OF d inv_init assms(2)]
  have once: "count_list as Close = (if chan_closed s then 1 else 0)"
    by (simp add: Run_init_def)
  from c have np: "panic s = None"
    by (simp add: ctl_ok_def)
  have closed: "chan_closed s \<longrightarrow>
      counter s = 0 \<and> sentinel s = Exited \<and> length (workers s) = length feeds \<and>
      (\<forall>i<length feeds. workers s ! i = Finished) \<and>
      (\<forall>i. step matchers searchTerm (Forward i) s = None)"
  proof
    assume cl: "chan_closed s"
    from c cl have "counter s = 0" and "sentinel s = Exited"
      by (auto simp: ctl_ok_def)
    moreover from c cl have "length (workers s) = length feeds"
      by (rule returned_all_finished(1))
    moreover from c cl have "\<forall>i<length feeds. workers s ! i = Finished"
      by (rule returned_all_finished(2))
    moreover from c cl have "\<forall>i. step matchers searchTerm (Forward i) s = None"
      by (simp add: closed_no_forward)
    ultimately show "counter s = 0 \<and> sentinel s = Exited \<and>
        length (workers s) = length feeds \<and>
        (\<forall>i<length feeds. workers s ! i = Finished) \<and>
        (\<forall>i. step matchers searchTerm (Forward i) s = None)"
      by (intro conjI)
  qed
  from c have ret: "main s = RunReturned \<longrightarrow> chan_closed s"
    by (auto simp: ctl_ok_def)
  have sole: "\<forall>a s'. step matchers searchTerm a s = Some s' \<and> chan_closed s' \<noteq> chan_closed s \<longrightarrow>
      a = Close \<and> sentinel s = Closing \<and> counter s = 0 \<and> chan_closed s'"
  proof (intro allI impI)
    fix a s'
    assume "step matchers searchTerm a s = Some s' \<and> chan_closed s' \<noteq> chan_closed s"
    then have st: "step matchers searchTerm a s = Some s'"
      and ch: "chan_closed s' \<noteq> chan_closed s"
      by simp_all
    from closes_step [OF c st] ch have a: "a = Close"
      by (cases "a = Close") auto
    from st a have sc: "sentinel s = Closing"
      by (simp add: step_def split: if_splits)
    with c have z: "counter s = 0"
      by (simp add: ctl_ok_def)
    from closes_step [OF c st] ch have "chan_closed s'"
      by (cases "chan_closed s'") auto
    with a sc z show "a = Close \<and> sentinel s = Closing \<and> counter s = 0 \<and> chan_closed s'"
      by simp
  qed
  from once np closed ret sole show ?thesis
    by (intro conjI)
qed

theorem sentinel_closes_once_witness:
  "count_list example_schedule Close = 1 \<and> chan_closed example_final \<and>
   counter example_final = 0 \<and> sentinel example_final = Exited \<and>
   panic example_final = None"
proof -
  note t = sentinel_closes_once [OF example_init example_run]
  have "chan_closed example_final"
    by (simp add: example_final_def)
  with t show ?thesis
    by simp
qed

text \<open>
  C7. Every worker takes the wait group down by one exactly once, on the path where
  its \<^verbatim>\<open>Search\<close> succeeded as on the path where it failed: \<^verbatim>\<open>Match\<close> returns on both, and
  the \<^verbatim>\<open>Done\<close> that is due then takes one off the counter and ends the worker. In every
  schedule the number of \<open>Done i\<close> actions is one if worker \<open>i\<close> has finished and zero
  otherwise, and the counter is the number of feeds less the number of finished workers.
  So the counter is zero as soon as all workers have finished, and when \<^verbatim>\<open>Run\<close> has
  returned every worker has done so exactly once.
\<close>

theorem every_worker_done_once:
  assumes "package_init plugins = Inr (matchers, lg)"
    and "run matchers searchTerm as (Run_init feeds) = Some s"
  shows "(\<forall>i. count_list as (Done i) = (if is_finished i s then 1 else 0)) \<and>
         counter s = int (length feeds) - int (finished_count (workers s)) \<and>
         (\<forall>i. i < length (workers s) \<and> workers s ! i = Returned \<longrightarrow>
            step matchers searchTerm (Done i) s =
              Some (s\<lparr>workers := (workers s)[i := Finished], counter := counter s - 1\<rparr>)) \<and>
         (length (workers s) = length feeds \<and> (\<forall>i<length feeds. is_finished i s) \<longrightarrow>
            counter s = 0) \<and>
         (main s = RunReturned \<longrightarrow>
            counter s = 0 \<and> (\<forall>i<length feeds. count_list as (Done i) = 1))"
proof -
  from assms(1) have d: "matchers ''default'' \<noteq> None"
    by (simp add: package_init_default)
  from assms have inv: "run_inv matchers searchTerm feeds s"
    by (rule reach_inv)
  then have c: "ctl_ok feeds s"
    by (simp add: run_inv_def)
  have start: "\<not> is_finished i (Run_init feeds)" for i
    by (simp add: is_finished_def Run_init_def)
  have once: "count_list as (Done i) = (if is_finished i s then 1 else 0)" for i
    using dones_run [OF d inv_init assms(2), of i] start [of i] by simp
  then have once_all: "\<forall>i. count_list as (Done i) = (if is_finished i s then 1 else 0)"
    by blast
  from c have cnt: "counter s = int (length feeds) - int (finished_count (workers s))"
    by (simp add: ctl_ok_def)
  have done_step: "\<forall>i. i < length (workers s) \<and> workers s ! i = Returned \<longrightarrow>
      step matchers searchTerm (Done i) s =
        Some (s\<lparr>workers := (workers s)[i := Finished], counter := counter s - 1\<rparr>)"
  proof (intro allI impI)
    fix i
    assume "i < length (workers s) \<and> workers s ! i = Returned"
    then have n: "i < length (workers s)" and at: "workers s ! i = Returned"
      by simp_all
    from at have busy: "workers s ! i \<noteq> Finished"
      by simp
    from inv n busy have "\<not> finished s"
      by (rule busy_not_finished(1))
    moreover from inv n busy have "0 < counter s"
      by (rule busy_not_finished(3))
    ultimately show "step matchers searchTerm (Done i) s =
        Some (s\<lparr>workers := (workers s)[i := Finished], counter := counter s - 1\<rparr>)"
      using n at by (simp add: step_def)
  qed
  have zero: "length (workers s) = length feeds \<and> (\<forall>i<length feeds. is_finished i s) \<longrightarrow>
      counter s = 0"
  proof
    assume a: "length (workers s) = length feeds \<and> (\<forall>i<length feeds. is_finished i s)"
    then have "\<forall>i<length (workers s). workers s ! i = Finished"
      by (simp add: is_finished_def)
    then have "finished_count (workers s) = length (workers s)"
      by (rule all_finished_count)
    with cnt a show "counter s = 0"
      by simp
  qed
  have ret: "main s = RunReturned \<longrightarrow>
      counter s = 0 \<and> (\<forall>i<length feeds. count_list as (Done i) = 1)"
  proof
    assume r: "main s = RunReturned"
    with c have "counter s = 0"
      by (auto simp: ctl_ok_def)
    moreover have "\<forall>i<length feeds. count_list as (Done i) = 1"
    proof (intro allI impI)
      fix i
      assume "i < length feeds"
      with inv r have "is_finished i s"
        by (rule returned_view(3))
      with once [of i] show "count_list as (Done i) = 1"
        by simp
    qed
    ultimately show "counter s = 0 \<and> (\<forall>i<length feeds. count_list as (Done i) = 1)"
      by (intro conjI)
  qed
  from once_all cnt done_step zero ret show ?thesis
    by (intro conjI)
qed

theorem every_worker_done_once_witness:
  "count_list example_schedule (Done 0) = 1 \<and> count_list example_schedule (Done 1) = 1 \<and>
   count_list example_schedule (Done 2) = 1 \<and> counter example_final = 0 \<and>
   length example_feeds = 3"
proof -
  note t = every_worker_done_once [OF example_init example_run]
  have r: "main example_final = RunReturned" and l: "length example_feeds = 3"
    by (simp_all add: example_final_def example_feeds_def)
  from t r have z: "counter example_final = 0"
    and all: "\<forall>i<length example_feeds. count_list example_schedule (Done i) = 1"
    by blast+
  from all l have "count_list example_schedule (Done 0) = 1"
    and "count_list example_schedule (Done 1) = 1"
    and "count_list example_schedule (Done 2) = 1"
    by simp_all
  with z l show ?thesis
    by simp
qed

subsection \<open>The default matcher as fallback\<close>

text \<open>
  C6. For a feed whose type tag is bound to no matcher, \<^verbatim>\<open>Run\<close> takes the matcher bound
  to \<^verbatim>\<open>"default"\<close>, which after package initialisation is the default matcher; its
  \<^verbatim>\<open>Search\<close> returns no result and no error for every feed and search term; and in every
  state of every schedule the worker of such a feed has had nothing delivered and has
  logged nothing.
\<close>

theorem unregistered_type_uses_default:
  assumes "package_init plugins = Inr (matchers, lg)"
    and "matchers (Type feed) = None"
  shows "resolve matchers feed = Some defaultMatcher \<and>
         defaultMatcher anyFeed searchTerm = ([], None) \<and>
         (\<forall>feeds as s i. run matchers searchTerm as (Run_init feeds) = Some s \<and>
            i < length feeds \<and> feeds ! i = feed \<longrightarrow>
            forwarded_by i s = [] \<and> logged_by i s = [] \<and> panic s = None)"
proof -
  from assms(1) have d: "matchers ''default'' = Some defaultMatcher"
    by (rule package_init_default)
  with assms(2) have res: "resolve matchers feed = Some defaultMatcher"
    by (simp add: resolve_def)
  have dm: "defaultMatcher anyFeed searchTerm = ([], None)"
    by (simp add: defaultMatcher_def)
  have run: "\<forall>feeds as s i. run matchers searchTerm as (Run_init feeds) = Some s \<and>
      i < length feeds \<and> feeds ! i = feed \<longrightarrow>
      forwarded_by i s = [] \<and> logged_by i s = [] \<and> panic s = None"
  proof (intro allI impI)
    fix feeds as s i
    assume a: "run matchers searchTerm as (Run_init feeds) = Some s \<and>
        i < length feeds \<and> feeds ! i = feed"
    then have r: "run matchers searchTerm as (Run_init feeds) = Some s"
      and f: "feeds ! i = feed"
      by simp_all
    from assms(1) r have inv: "run_inv matchers searchTerm feeds s"
      by (rule reach_inv)
    then have c: "ctl_ok feeds s" and w: "workers_ok matchers searchTerm feeds s"
      by (simp_all add: run_inv_def)
    have "defaultMatcher feed searchTerm = ([], None)"
      by (simp add: defaultMatcher_def)
    with res have x: "expected_results matchers searchTerm feed = []"
      "expected_errors matchers searchTerm feed = []"
      by (simp_all add: expected_results_def expected_errors_def)
    from worker_view(1) [OF w, of i] f x(1) have "forwarded_by i s = []"
      by simp
    moreover from worker_view(2) [OF w, of i] f x(2) have "logged_by i s = []"
      by auto
    moreover from c have "panic s = None"
      by (simp add: ctl_ok_def)
    ultimately show "forwarded_by i s = [] \<and> logged_by i s = [] \<and> panic s = None"
      by (intro conjI)
  qed
  from res dm run show ?thesis
    by (intro conjI)
qed

theorem unregistered_type_uses_default_witness:
  "example_registry ''atom'' = None \<and>
   resolve example_registry \<lparr>Name = ''C'', URI = ''http://c'', Type = ''atom''\<rparr>
     = Some defaultMatcher \<and>
   forwarded_by 2 example_final = [] \<and> logged_by 2 example_final = []"
proof -
  have u: "example_registry (Type \<lparr>Name = ''C'', URI = ''http://c'', Type = ''atom''\<rparr>) = None"
    by (simp add: example_registry_def)
  note t = unregistered_type_uses_default [OF example_init u, of "example_feeds ! 2" "''x''"]
  have "2 < length example_feeds"
    and "example_feeds ! 2 = \<lparr>Name = ''C'', URI = ''http://c'', Type = ''atom''\<rparr>"
    by (simp_all add: example_feeds_def)
  with t example_run have "forwarded_by 2 example_final = [] \<and> logged_by 2 example_final = []"
    by blast
  with t u show ?thesis
    by simp
qed

subsection \<open>What reaches the sink\<close>



end
